theory Spec2Isabelle
  imports Main "HOL-Library.Multiset"
begin

section \<open>Data model of parser.py\<close>

text \<open>
  The TypedDict classes of the source become records with the same field names
  (\<open>id\<close> and \<open>type\<close> carry a prime, since HOL already uses those names).
\<close>

record country =
  code :: string
  displayName :: string
  emoji :: string

record city =
  id' :: string
  displayName :: string
  state :: "string option"

record organization =
  id' :: string
  orgname :: string
  imageUrl :: string
  displayName :: string
  orgType :: string
  city :: city
  country :: country

record author =
  username :: string
  firstName :: string
  emoji :: "string option"
  imageUrl :: string
  fromCountry :: country

record cursor =
  score :: int
  createdAt :: string

record story_item =
  slug :: string
  createdAt :: string
  author :: author
  org :: organization
  squareImageUrl :: string
  previewImageUrl :: string
  type' :: string
  title :: string
  localeContents :: "string list"

record api_response =
  items :: "story_item list"
  nextCursor :: "cursor option"

record story_section =
  title :: string
  content :: string
  images :: "string list"

text \<open>
  The dictionary that \<open>parse_story\<close> returns has exactly the two keys
  \<open>sections\<close> and \<open>mainImage\<close>: the other keys of the ParsedStory class are
  commented out in the return statement.
\<close>

record parsed_story =
  sections :: "story_section list"
  mainImage :: "string option"

text \<open>
  \<open>process_story\<close> builds \<open>{**story, 'sections': ..., 'mainImage': ...}\<close>:
  every key of the summary, extended by the two parsed keys.
\<close>

record full_story = story_item +
  sections :: "story_section list"
  mainImage :: "string option"

datatype error =
  RequestException
  | HTTPError int
  | MalformedEnvelope
  | ValueError string

section \<open>The markup tree\<close>

text \<open>
  A parsed page is a tree of BeautifulSoup elements. A \<open>Tag\<close> has a name, an
  attribute dictionary and its children in document order. The other elements are
  strings and have no name: a \<open>NavigableString\<close> is ordinary text, a \<open>CData\<close>
  is a CDATA section, and \<open>OtherString\<close> stands for the string classes that
  \<open>get_text\<close> leaves out of a heading or paragraph: comments, the strings the
  parser puts inside script, style and template tags, declarations, doctypes and
  processing instructions.
\<close>

datatype string_class =
  Comment
  | Script
  | Stylesheet
  | TemplateString
  | Declaration
  | Doctype
  | ProcessingInstruction

datatype node =
  NavigableString string
  | CData string
  | OtherString string_class string
  | Tag string "(string \<times> string) list" "node list"

fun name :: "node \<Rightarrow> string option" where
  "name (Tag n a cs) = Some n"
| "name (NavigableString s) = None"
| "name (CData s) = None"
| "name (OtherString k s) = None"

fun children :: "node \<Rightarrow> node list" where
  "children (Tag n a cs) = cs"
| "children (NavigableString s) = []"
| "children (CData s) = []"
| "children (OtherString k s) = []"

text \<open>\<open>tag.get(key)\<close>: the attribute's value, or nothing when the key is missing.\<close>

fun get_attr :: "node \<Rightarrow> string \<Rightarrow> string option" where
  "get_attr (Tag n a cs) k = map_of a k"
| "get_attr (NavigableString s) k = None"
| "get_attr (CData s) k = None"
| "get_attr (OtherString c s) k = None"

text \<open>\<open>tag.descendants\<close>: every node below the tag, in document order.\<close>

primrec descendants :: "node \<Rightarrow> node list" where
  "descendants (NavigableString s) = []"
| "descendants (CData s) = []"
| "descendants (OtherString k s) = []"
| "descendants (Tag n a cs) = concat (map (\<lambda>c. c # descendants c) cs)"

text \<open>\<open>tag.find(n)\<close>: the first descendant tag with that name.\<close>

definition find_tag :: "node \<Rightarrow> string \<Rightarrow> node option" where
  "find_tag t n = List.find (\<lambda>d. name d = Some n) (descendants t)"

text \<open>
  \<open>str.isspace\<close> on the code points below 256, and \<open>str.strip()\<close>, which removes
  the whitespace at both ends.
\<close>

definition isspace :: "char \<Rightarrow> bool" where
  "isspace c =
     (let n = (of_char c :: nat)
      in (9 \<le> n \<and> n \<le> 13) \<or> (28 \<le> n \<and> n \<le> 32) \<or> n = 133 \<or> n = 160)"

definition strip :: "string \<Rightarrow> string" where
  "strip s = rev (dropWhile isspace (rev (dropWhile isspace s)))"

text \<open>
  \<open>tag.get_text(strip=True)\<close> on a heading or paragraph: of the strings below
  the tag, those of class NavigableString or CData are taken, each is stripped, the
  empty ones are skipped, and the rest are joined with the empty separator.
\<close>

fun string_of :: "node \<Rightarrow> string list" where
  "string_of (NavigableString s) = [s]"
| "string_of (CData s) = [s]"
| "string_of (OtherString k s) = []"
| "string_of (Tag n a cs) = []"

definition all_strings :: "node \<Rightarrow> string list" where
  "all_strings t =
     filter (\<lambda>s. s \<noteq> []) (map strip (concat (map string_of (descendants t))))"

definition get_text :: "node \<Rightarrow> string" where
  "get_text t = concat (all_strings t)"

section \<open>parse_story: the document segmenter\<close>

text \<open>The three local variables of the walk over the article.\<close>

record seg_state =
  st_sections :: "story_section list"
  current_section :: "story_section option"
  main_image :: "string option"

text \<open>
  Python truth of an optional string: \<open>None\<close> and the empty string are false.
  A section dictionary always has three keys, so \<open>if current_section\<close> asks
  whether it is there at all.
\<close>

fun truthy :: "string option \<Rightarrow> bool" where
  "truthy None = False"
| "truthy (Some s) = (s \<noteq> [])"

text \<open>The body of the inner loop, for one child \<open>content\<close> of a wrapper div.\<close>

definition process_content :: "seg_state \<Rightarrow> node \<Rightarrow> seg_state" where
  "process_content st c =
     (if name c = Some ''h1'' then
        st\<lparr>st_sections :=
             (case current_section st of
                None \<Rightarrow> st_sections st
              | Some cur \<Rightarrow> st_sections st @ [cur]),
           current_section :=
             Some \<lparr>title = get_text c, content = [], images = []\<rparr>\<rparr>
      else if name c = Some ''p'' then
        (case current_section st of
           None \<Rightarrow> st
         | Some cur \<Rightarrow>
             st\<lparr>current_section :=
                  Some (cur\<lparr>content := content cur @ get_text c @ [CHR 0x0A]\<rparr>)\<rparr>)
      else if name c = Some ''figure'' then
        (case find_tag c ''img'' of
           None \<Rightarrow> st
         | Some img \<Rightarrow>
             (case get_attr img ''src'' of
                None \<Rightarrow> st
              | Some img_url \<Rightarrow>
                  if img_url = [] then st
                  else
                    (let st1 = (if \<not> truthy (main_image st)
                                then st\<lparr>main_image := Some img_url\<rparr> else st)
                     in case current_section st1 of
                          None \<Rightarrow> st1
                        | Some cur \<Rightarrow>
                            st1\<lparr>current_section :=
                                  Some (cur\<lparr>images := images cur @ [img_url]\<rparr>)\<rparr>)))
      else st)"

text \<open>The body of the outer loop, for one child \<open>element\<close> of the article.\<close>

definition process_element :: "seg_state \<Rightarrow> node \<Rightarrow> seg_state" where
  "process_element st e =
     (if name e = Some ''a'' then st
      else if name e = Some ''div'' then foldl process_content st (children e)
      else st)"

definition initial_state :: seg_state where
  "initial_state = \<lparr>st_sections = [], current_section = None, main_image = None\<rparr>"

text \<open>
  The part of \<open>parse_story\<close> after \<open>soup.find('article')\<close> has found the
  container: the two nested loops, then the last section is added if it exists.
\<close>

definition segment :: "node \<Rightarrow> parsed_story" where
  "segment article =
     (let st = foldl process_element initial_state (children article);
          secs = (case current_section st of
                    None \<Rightarrow> st_sections st
                  | Some cur \<Rightarrow> st_sections st @ [cur])
      in \<lparr>parsed_story.sections = secs, parsed_story.mainImage = main_image st\<rparr>)"

section \<open>The remote service\<close>

text \<open>
  What \<open>requests.get\<close> gives: the call raises, or a response with a status code
  and a body. \<open>raise_for_status\<close> raises on the codes 400 to 599.
\<close>

datatype 'a http = ConnectionError | Response int 'a

definition raise_for_status :: "int \<Rightarrow> bool" where
  "raise_for_status status_code = (400 \<le> status_code \<and> status_code < 600)"

record request_payload =
  lang :: string
  limit :: int
  types :: "string list"
  cursor :: "cursor option"

text \<open>
  The world outside the program: the listing endpoint answers a request payload
  with a status and, when the body decodes to the expected envelope, the decoded
  \<open>data['0']['result']['data']['json']\<close>; the page endpoint answers a URL with a
  status and the parsed markup (the soup object); \<open>completion_order\<close> is the order
  in which \<open>as_completed\<close> hands back the futures of a batch.
\<close>

record env =
  listing :: "request_payload \<Rightarrow> api_response option http"
  page :: "string \<Rightarrow> node http"
  completion_order :: "story_item list \<Rightarrow> story_item list"

definition create_request_payload ::
  "string \<Rightarrow> int \<Rightarrow> string list \<Rightarrow> cursor option \<Rightarrow> request_payload" where
  "create_request_payload lg lim tys cur =
     \<lparr>lang = lg, limit = lim, types = tys, cursor = cur\<rparr>"

definition fetch_stories ::
  "env \<Rightarrow> string \<Rightarrow> int \<Rightarrow> string list \<Rightarrow> cursor option \<Rightarrow> error + api_response" where
  "fetch_stories ev lg lim tys cur =
     (case listing ev (create_request_payload lg lim tys cur) of
        ConnectionError \<Rightarrow> Inl RequestException
      | Response status_code body \<Rightarrow>
          if raise_for_status status_code then Inl (HTTPError status_code)
          else (case body of
                  None \<Rightarrow> Inl MalformedEnvelope
                | Some data \<Rightarrow> Inr data))"

definition parse_story :: "env \<Rightarrow> string \<Rightarrow> error + parsed_story" where
  "parse_story ev sl =
     (case page ev (''https://borderless.so/stories/'' @ sl) of
        ConnectionError \<Rightarrow> Inl RequestException
      | Response status_code soup \<Rightarrow>
          if raise_for_status status_code then Inl (HTTPError status_code)
          else (case find_tag soup ''article'' of
                  None \<Rightarrow>
                    Inl (ValueError (''Could not find article content for slug: '' @ sl))
                | Some article \<Rightarrow> Inr (segment article)))"

section \<open>fetch_full_stories: pagination and enrichment\<close>

definition process_story :: "env \<Rightarrow> story_item \<Rightarrow> error + full_story" where
  "process_story ev story =
     (case parse_story ev (slug story) of
        Inl e \<Rightarrow> Inl e
      | Inr parsed_content \<Rightarrow>
          Inr (story_item.extend story
                 (full_story.fields (parsed_story.sections parsed_content)
                                    (parsed_story.mainImage parsed_content))))"

text \<open>
  One turn of either collecting loop: the try block appends the full story, the
  except block prints and appends nothing.
\<close>

definition collect :: "env \<Rightarrow> full_story list \<Rightarrow> story_item \<Rightarrow> full_story list" where
  "collect ev batch_stories story =
     (case process_story ev story of
        Inr full \<Rightarrow> batch_stories @ [full]
      | Inl e \<Rightarrow> batch_stories)"

text \<open>
  The batch of one listing page. In parallel mode the pool constructor refuses a
  width below one, and the results are collected in completion order.
\<close>

definition process_batch ::
  "env \<Rightarrow> bool \<Rightarrow> int \<Rightarrow> story_item list \<Rightarrow> error + full_story list" where
  "process_batch ev parallel max_workers its =
     (if parallel then
        (if max_workers \<le> 0 then Inl (ValueError ''max_workers must be greater than 0'')
         else Inr (foldl (collect ev) [] (completion_order ev its)))
      else Inr (foldl (collect ev) [] its))"

text \<open>Python's \<open>xs[:n]\<close>; a negative \<open>n\<close> counts from the end.\<close>

definition slice_to :: "'a list \<Rightarrow> int \<Rightarrow> 'a list" where
  "slice_to xs n =
     (if 0 \<le> n then take (nat n) xs else take (length xs - nat (- n)) xs)"

datatype outcome =
  Raise error
  | Return "full_story list"
  | Next cursor "full_story list"

text \<open>One turn of the \<open>while True\<close> loop, with \<open>batch_size = 10\<close>.\<close>

definition loop_body ::
  "env \<Rightarrow> int \<Rightarrow> bool \<Rightarrow> int \<Rightarrow> cursor option \<Rightarrow> full_story list \<Rightarrow> outcome" where
  "loop_body ev count' parallel max_workers cur all_stories =
     (case fetch_stories ev ''en'' 10 [''Bachelor''] cur of
        Inl e \<Rightarrow> Raise e
      | Inr stories_response \<Rightarrow>
          (case process_batch ev parallel max_workers (items stories_response) of
             Inl e \<Rightarrow> Raise e
           | Inr batch_stories \<Rightarrow>
               (let all' = all_stories @ batch_stories
                in if count' \<noteq> - 1 \<and> count' \<le> int (length all')
                   then Return (slice_to all' count')
                   else (case nextCursor stories_response of
                           None \<Rightarrow> Return all'
                         | Some c \<Rightarrow> Next c all'))))"

text \<open>
  The loop itself. The service may hand out cursors forever, so the loop is a
  partial function: \<open>None\<close> stands for a walk that never returns.
\<close>

partial_function (option) pagination_loop ::
  "env \<Rightarrow> int \<Rightarrow> bool \<Rightarrow> int \<Rightarrow> cursor option \<Rightarrow> full_story list
     \<Rightarrow> (error + full_story list) option" where
  "pagination_loop ev count' parallel max_workers cur all_stories =
     (case loop_body ev count' parallel max_workers cur all_stories of
        Raise e \<Rightarrow> Some (Inl e)
      | Return result \<Rightarrow> Some (Inr result)
      | Next c all' \<Rightarrow> pagination_loop ev count' parallel max_workers (Some c) all')"

definition fetch_full_stories ::
  "env \<Rightarrow> int \<Rightarrow> bool \<Rightarrow> int \<Rightarrow> (error + full_story list) option" where
  "fetch_full_stories ev count' parallel max_workers =
     pagination_loop ev count' parallel max_workers None []"

section \<open>The segmenter's output, described from the markup\<close>

text \<open>
  The definitions of this section say what the segmenter is expected to compute, in
  terms of the markup alone; the theorems below compare them with \<open>segment\<close>.
  \<open>content_nodes\<close> lists the nodes the walk visits: the children of every wrapper
  div directly below the article, in document order.
\<close>

definition is_heading :: "node \<Rightarrow> bool" where
  "is_heading c = (name c = Some ''h1'')"

definition paragraph_text :: "node \<Rightarrow> string" where
  "paragraph_text c = (if name c = Some ''p'' then get_text c @ [CHR 0x0A] else [])"

text \<open>
  The image reference a visited node contributes: the non-empty \<open>src\<close> of the first
  \<open>img\<close> below a figure.
\<close>

definition figure_url :: "node \<Rightarrow> string option" where
  "figure_url c =
     (if name c = Some ''figure'' then
        (case find_tag c ''img'' of
           None \<Rightarrow> None
         | Some img \<Rightarrow>
             (case get_attr img ''src'' of
                None \<Rightarrow> None
              | Some u \<Rightarrow> if u = [] then None else Some u))
      else None)"

definition content_nodes :: "node \<Rightarrow> node list" where
  "content_nodes article =
     concat (map (\<lambda>e. if name e = Some ''div'' then children e else []) (children article))"

text \<open>The nodes that follow a heading, up to the next heading.\<close>

definition block :: "node list \<Rightarrow> node list" where
  "block xs = takeWhile (\<lambda>c. \<not> is_heading c) xs"

definition extend_section :: "story_section \<Rightarrow> node list \<Rightarrow> story_section" where
  "extend_section cur blk =
     cur\<lparr>content := content cur @ concat (map paragraph_text blk),
         images := images cur @ List.map_filter figure_url blk\<rparr>"

definition paragraphs :: "node list \<Rightarrow> node list" where
  "paragraphs blk = filter (\<lambda>c. name c = Some ''p'') blk"

definition body_spec :: "node list \<Rightarrow> string" where
  "body_spec blk = concat (map (\<lambda>p. get_text p @ [CHR 0x0A]) (paragraphs blk))"

definition section_of :: "node \<Rightarrow> node list \<Rightarrow> story_section" where
  "section_of h blk =
     \<lparr>title = get_text h,
      content = body_spec blk,
      images = List.map_filter figure_url blk\<rparr>"

text \<open>Every heading of a node list, in order, with the block that follows it.\<close>

fun heading_blocks :: "node list \<Rightarrow> (node \<times> node list) list" where
  "heading_blocks [] = []"
| "heading_blocks (x # xs) =
     (if is_heading x then (x, block xs) # heading_blocks xs else heading_blocks xs)"

definition sections_spec :: "node list \<Rightarrow> story_section list" where
  "sections_spec xs = map (\<lambda>(h, blk). section_of h blk) (heading_blocks xs)"

definition main_image_spec :: "node list \<Rightarrow> string option" where
  "main_image_spec xs =
     (case List.map_filter figure_url xs of [] \<Rightarrow> None | u # us \<Rightarrow> Some u)"

text \<open>The section list once the section in progress, if any, has been added.\<close>

definition finish :: "seg_state \<Rightarrow> story_section list" where
  "finish st =
     (case current_section st of
        None \<Rightarrow> st_sections st
      | Some cur \<Rightarrow> st_sections st @ [cur])"

section \<open>The pipeline's output, described from the listing\<close>

text \<open>
  What one summary contributes to its batch: the full story, or nothing when
  \<open>process_story\<close> raises.
\<close>

definition enriched :: "env \<Rightarrow> story_item \<Rightarrow> full_story option" where
  "enriched ev story =
     (case process_story ev story of Inl e \<Rightarrow> None | Inr full \<Rightarrow> Some full)"

definition fails :: "env \<Rightarrow> story_item \<Rightarrow> bool" where
  "fails ev story = isl (process_story ev story)"

text \<open>
  The service answers the walk that starts at a cursor with exactly this finite
  sequence of listing responses: every response but the last carries the cursor of
  the next request, and the last carries none.
\<close>

fun serves :: "env \<Rightarrow> cursor option \<Rightarrow> api_response list \<Rightarrow> bool" where
  "serves ev cur [] = False"
| "serves ev cur (r # rs) =
     (fetch_stories ev ''en'' 10 [''Bachelor''] cur = Inr r
      \<and> (case nextCursor r of None \<Rightarrow> rs = [] | Some c \<Rightarrow> serves ev (Some c) rs))"

text \<open>
  The walk that starts at a cursor is answered, request after request, with these
  listing responses, each but the last carrying the cursor of the next request;
  what the service would answer after the last one is left open.
\<close>

fun serves_prefix :: "env \<Rightarrow> cursor option \<Rightarrow> api_response list \<Rightarrow> bool" where
  "serves_prefix ev cur [] = False"
| "serves_prefix ev cur [r] = (fetch_stories ev ''en'' 10 [''Bachelor''] cur = Inr r)"
| "serves_prefix ev cur (r # r' # rs) =
     (fetch_stories ev ''en'' 10 [''Bachelor''] cur = Inr r
      \<and> (case nextCursor r of None \<Rightarrow> False | Some c \<Rightarrow> serves_prefix ev (Some c) (r' # rs)))"

text \<open>
  The batch of the summaries of one listing page, in sequential mode or in the
  completion order of the pool, and the batches of a sequence of pages, concatenated
  in listing order.
\<close>

definition batch_of :: "env \<Rightarrow> bool \<Rightarrow> story_item list \<Rightarrow> full_story list" where
  "batch_of ev parallel its =
     List.map_filter (enriched ev) (if parallel then completion_order ev its else its)"

definition walk_records :: "env \<Rightarrow> bool \<Rightarrow> api_response list \<Rightarrow> full_story list" where
  "walk_records ev parallel rs = concat (map (\<lambda>r. batch_of ev parallel (items r)) rs)"

section \<open>Example inputs\<close>

text \<open>
  The markup of the worked example: an article with one wrapper that holds a heading,
  a paragraph, a figure with an image, a second heading and a second paragraph.
\<close>

definition example_article :: node where
  "example_article =
     Tag ''article'' []
       [Tag ''div'' []
          [Tag ''h1'' [] [NavigableString ''Intro''],
           Tag ''p'' [] [NavigableString ''Hello''],
           Tag ''figure'' [] [Tag ''img'' [(''src'', ''a.png'')] []],
           Tag ''h1'' [] [NavigableString ''Next''],
           Tag ''p'' [] [NavigableString ''World'']]]"

definition example_soup :: node where
  "example_soup = Tag ''[document]'' [] [Tag ''html'' [] [Tag ''body'' [] [example_article]]]"

definition example_country :: country where
  "example_country =
     \<lparr>country.code = ''KZ'', country.displayName = ''Kazakhstan'', country.emoji = ''kz''\<rparr>"

definition example_author :: author where
  "example_author =
     \<lparr>username = ''user'', firstName = ''Ann'', author.emoji = None,
      author.imageUrl = ''u.png'', fromCountry = example_country\<rparr>"

definition example_org :: organization where
  "example_org =
     \<lparr>organization.id' = ''1'', orgname = ''uni'', organization.imageUrl = ''o.png'',
      organization.displayName = ''Uni'', orgType = ''University'',
      city = \<lparr>city.id' = ''2'', city.displayName = ''Town'', state = None\<rparr>,
      country = example_country\<rparr>"

definition example_item :: "string \<Rightarrow> story_item" where
  "example_item s =
     \<lparr>slug = s, story_item.createdAt = ''2024-01-01'', author = example_author,
      org = example_org, squareImageUrl = ''s.png'', previewImageUrl = ''p.png'',
      type' = ''Bachelor'', story_item.title = ''Story'', localeContents = []\<rparr>"

definition example_cursor :: cursor where
  "example_cursor = \<lparr>score = 1, cursor.createdAt = ''2024-01-01''\<rparr>"

definition example_page_one :: api_response where
  "example_page_one =
     \<lparr>items = [example_item ''one'', example_item ''bad'', example_item ''two''],
      nextCursor = Some example_cursor\<rparr>"

definition example_page_two :: api_response where
  "example_page_two = \<lparr>items = [example_item ''three''], nextCursor = None\<rparr>"

text \<open>
  A listing endpoint with two pages: three summaries and a cursor, then one summary
  and no cursor. The page of slug \<open>bad\<close> answers 404, the page of slug \<open>empty\<close>
  has no article, every other page is the worked example.
\<close>

definition example_listing :: "request_payload \<Rightarrow> api_response option http" where
  "example_listing p =
     (case cursor p of
        None \<Rightarrow> Response 200 (Some example_page_one)
      | Some c \<Rightarrow> Response 200 (Some example_page_two))"

definition example_page :: "string \<Rightarrow> node http" where
  "example_page url =
     (if url = ''https://borderless.so/stories/bad'' then Response 404 (Tag ''[document]'' [] [])
      else if url = ''https://borderless.so/stories/empty'' then Response 200 (Tag ''[document]'' [] [])
      else Response 200 example_soup)"

definition example_env :: env where
  "example_env =
     \<lparr>listing = example_listing, page = example_page, completion_order = rev\<rparr>"

text \<open>
  Two more services: one whose listing endpoint answers 500, and one whose listing
  endpoint hands out one summary and a further cursor on every request.
\<close>

definition broken_env :: env where
  "broken_env = example_env\<lparr>listing := (\<lambda>p. Response 500 None)\<rparr>"

definition endless_env :: env where
  "endless_env =
     example_env\<lparr>listing := (\<lambda>p. Response 200
        (Some \<lparr>items = [example_item ''one''], nextCursor = Some example_cursor\<rparr>))\<rparr>"

text \<open>The full story of an example summary whose page is the worked example.\<close>

definition example_full :: "string \<Rightarrow> full_story" where
  "example_full s =
     story_item.extend (example_item s)
       (full_story.fields (parsed_story.sections (segment example_article))
          (parsed_story.mainImage (segment example_article)))"

section \<open>The segmenter computes the described sections\<close>

lemma process_content_heading:
  "is_heading c \<Longrightarrow>
   process_content st c =
     st\<lparr>st_sections := finish st,
        current_section := Some \<lparr>title = get_text c, content = [], images = []\<rparr>\<rparr>"
  by (simp add: process_content_def is_heading_def finish_def)

lemma process_content_other:
  "\<not> is_heading c \<Longrightarrow>
   process_content st c =
     st\<lparr>current_section := map_option (\<lambda>cur. extend_section cur [c]) (current_section st),
        main_image :=
          (if truthy (main_image st) then main_image st
           else (case figure_url c of None \<Rightarrow> main_image st | Some u \<Rightarrow> Some u))\<rparr>"
  by (auto simp add: process_content_def is_heading_def extend_section_def paragraph_text_def
      figure_url_def Let_def split: option.splits)

lemma extend_section_Cons:
  "\<not> is_heading c \<Longrightarrow> extend_section (extend_section cur [c]) (block xs) = extend_section cur (block (c # xs))"
  by (simp add: extend_section_def block_def split: option.splits)

lemma body_spec_eq: "body_spec blk = concat (map paragraph_text blk)"
  by (induction blk) (simp_all add: body_spec_def paragraphs_def paragraph_text_def)

lemma section_of_extend:
  "section_of c blk = extend_section \<lparr>title = get_text c, content = [], images = []\<rparr> blk"
  by (simp add: section_of_def extend_section_def body_spec_eq)

lemma sections_spec_Cons:
  "sections_spec (x # xs) =
     (if is_heading x then section_of x (block xs) # sections_spec xs else sections_spec xs)"
  by (simp add: sections_spec_def)

lemma sections_spec_Nil: "sections_spec [] = []"
  by (simp add: sections_spec_def)

lemma finish_alt:
  "finish st =
     st_sections st @ (case current_section st of None \<Rightarrow> [] | Some cur \<Rightarrow> [cur])"
  by (simp add: finish_def split: option.splits)

lemma extend_section_Nil: "extend_section cur [] = cur"
  by (simp add: extend_section_def)

lemma finish_foldl:
  "finish (foldl process_content st xs) =
     st_sections st
     @ (case current_section st of None \<Rightarrow> [] | Some cur \<Rightarrow> [extend_section cur (block xs)])
     @ sections_spec xs"
proof (induction xs arbitrary: st)
  case Nil
  show ?case
    by (simp add: finish_alt block_def extend_section_Nil sections_spec_Nil split: option.splits)
next
  case (Cons c xs)
  show ?case
  proof (cases "is_heading c")
    case True
    have "finish (foldl process_content st (c # xs)) =
            finish st @ [section_of c (block xs)] @ sections_spec xs"
      using True by (simp add: Cons.IH process_content_heading section_of_extend sections_spec_Cons)
    moreover have "block (c # xs) = []"
      using True by (simp add: block_def)
    ultimately show ?thesis
      using True by (simp add: finish_alt extend_section_Nil sections_spec_Cons split: option.splits)
  next
    case False
    then show ?thesis
      by (simp add: Cons.IH process_content_other extend_section_Cons sections_spec_Cons split: option.splits)
  qed
qed

lemma main_image_foldl:
  "main_image (foldl process_content st xs) =
     (if truthy (main_image st) then main_image st
      else (case List.map_filter figure_url xs of [] \<Rightarrow> main_image st | u # us \<Rightarrow> Some u))"
proof (induction xs arbitrary: st)
  case Nil
  show ?case by (simp add:)
next
  case (Cons c xs)
  have nonempty: "figure_url c = Some u \<Longrightarrow> u \<noteq> []" for u
    by (auto simp add: figure_url_def split: option.splits if_splits)
  show ?case
  proof (cases "is_heading c")
    case True
    then have "figure_url c = None"
      by (simp add: figure_url_def is_heading_def)
    with True show ?thesis
      by (simp add: Cons.IH process_content_heading split: list.splits)
  next
    case False
    then show ?thesis
      by (auto simp add: Cons.IH process_content_other
          dest: nonempty split: option.splits list.splits)
  qed
qed

lemma foldl_process_element:
  "foldl process_element st es =
     foldl process_content st
       (concat (map (\<lambda>e. if name e = Some ''div'' then children e else []) es))"
  by (induction es arbitrary: st) (simp_all add: process_element_def)

lemma segment_refines:
  "parsed_story.sections (segment article) = sections_spec (content_nodes article)
   \<and> parsed_story.mainImage (segment article) = main_image_spec (content_nodes article)"
  using finish_foldl [of initial_state "content_nodes article"]
    main_image_foldl [of initial_state "content_nodes article"]
  by (simp add: segment_def Let_def foldl_process_element content_nodes_def finish_def
      main_image_spec_def initial_state_def split: list.splits)

lemma sections_segment:
  "parsed_story.sections (segment article) = sections_spec (content_nodes article)"
  using segment_refines by simp

lemma mainImage_segment:
  "parsed_story.mainImage (segment article) = main_image_spec (content_nodes article)"
  using segment_refines by simp

lemma heading_blocks_fst: "map fst (heading_blocks xs) = filter is_heading xs"
  by (induction xs) simp_all

lemma heading_blocks_append:
  "\<forall>c \<in> set pre. \<not> is_heading c \<Longrightarrow> heading_blocks (pre @ xs) = heading_blocks xs"
  by (induction pre) simp_all

lemma heading_blocks_dropWhile:
  "heading_blocks (dropWhile (\<lambda>c. \<not> is_heading c) xs) = heading_blocks xs"
  by (induction xs) simp_all

lemma figure_url_heading: "is_heading c \<Longrightarrow> figure_url c = None"
  by (simp add: figure_url_def is_heading_def)

lemma map_filter_append:
  "List.map_filter f (xs @ ys) = List.map_filter f xs @ List.map_filter f ys"
  by (simp add: List.map_filter_def)

lemma block_images:
  "List.map_filter figure_url (block xs) @ concat (map (\<lambda>(h, blk). List.map_filter figure_url blk) (heading_blocks xs))
   = List.map_filter figure_url xs"
proof (induction xs)
  case Nil
  show ?case by (simp add: block_def)
next
  case (Cons x xs)
  show ?case
  proof (cases "is_heading x")
    case True
    with Cons show ?thesis by (simp add: block_def figure_url_heading)
  next
    case False
    with Cons show ?thesis by (simp add: block_def split: option.splits)
  qed
qed

lemma images_after_first_heading:
  "concat (map (\<lambda>(h, blk). List.map_filter figure_url blk) (heading_blocks xs))
   = List.map_filter figure_url (dropWhile (\<lambda>c. \<not> is_heading c) xs)"
proof (induction xs)
  case Nil
  show ?case by simp
next
  case (Cons x xs)
  show ?case
  proof (cases "is_heading x")
    case True
    then show ?thesis
      using block_images [of xs] by (simp add: figure_url_heading)
  next
    case False
    with Cons show ?thesis by simp
  qed
qed

lemma concat_terminated:
  "concat (map (\<lambda>p. f p @ [c]) ps) = [] \<or> last (concat (map (\<lambda>p. f p @ [c]) ps)) = c"
  by (cases ps rule: rev_cases) simp_all

lemma body_spec_newline: "body_spec blk = [] \<or> last (body_spec blk) = CHR 0x0A"
  unfolding body_spec_def by (rule concat_terminated)

lemma strip_ex: "strip ''Intro'' = ''Intro''" "strip ''Hello'' = ''Hello''"
  "strip ''Next'' = ''Next''" "strip ''World'' = ''World''"
  by (simp_all add: strip_def isspace_def)

lemma get_text_skips:
  "get_text (Tag ''h1'' [] [NavigableString ''Intro'', OtherString Comment ''c1'']) = ''Intro''"
  "get_text (Tag ''p'' [] [NavigableString ''Hello'', Tag ''script'' [] [OtherString Script ''x1'']])
     = ''Hello''"
  by (simp_all add: get_text_def all_strings_def strip_ex)

lemma segment_example:
  "segment example_article =
     \<lparr>parsed_story.sections =
        [\<lparr>title = ''Intro'', content = ''Hello'' @ [CHR 0x0A], images = [''a.png'']\<rparr>,
         \<lparr>title = ''Next'', content = ''World'' @ [CHR 0x0A], images = []\<rparr>],
      parsed_story.mainImage = Some ''a.png''\<rparr>"
  by (simp add: segment_def example_article_def initial_state_def process_element_def
      process_content_def find_tag_def get_text_def all_strings_def strip_ex Let_def)

lemma find_example: "find_tag example_soup ''article'' = Some example_article"
  by (simp add: find_tag_def example_soup_def example_article_def)

lemma parse_story_example:
  "parse_story example_env ''one'' = Inr (segment example_article)"
  by (simp add: parse_story_def example_env_def example_page_def raise_for_status_def find_example)

text \<open>
  Claim C3. For the worked example (one wrapper holding heading "Intro", paragraph
  "Hello", a figure with an image of source "a.png", heading "Next", paragraph
  "World"), \<open>parse_story\<close> returns the two sections Intro / "Hello" and a newline /
  ["a.png"] and Next / "World" and a newline / no image, in that order, and the main
  image "a.png". A heading or paragraph that holds one string contributes that string
  with the whitespace at both ends removed, the paragraph followed by a newline.
\<close>

theorem C3_worked_example:
  "parse_story example_env ''one'' =
     Inr \<lparr>parsed_story.sections =
            [\<lparr>title = ''Intro'', content = ''Hello'' @ [CHR 0x0A], images = [''a.png'']\<rparr>,
             \<lparr>title = ''Next'', content = ''World'' @ [CHR 0x0A], images = []\<rparr>],
          parsed_story.mainImage = Some ''a.png''\<rparr>
   \<and> get_text (Tag n a [NavigableString s]) = strip s
   \<and> paragraph_text (Tag ''p'' a [NavigableString s]) = strip s @ [CHR 0x0A]"
  by (simp add: parse_story_example segment_example get_text_def all_strings_def paragraph_text_def)

text \<open>
  Claim C4. For every article, the recorded main image is the first image reference
  that a visited figure contributes, in document order, whether or not a section is
  in progress at that point; once a main image is recorded, no later node of the walk
  replaces it. The image lists of the emitted sections hold, in order, exactly the
  references of the figures from the first heading on: a figure before any heading
  reaches the main image only.
\<close>

theorem C4_main_image:
  "parsed_story.mainImage (segment article) =
     (case List.map_filter figure_url (content_nodes article) of
        [] \<Rightarrow> None
      | u # later \<Rightarrow> Some u)
   \<and> (truthy (main_image st) \<longrightarrow> main_image (foldl process_content st xs) = main_image st)
   \<and> concat (map images (parsed_story.sections (segment article))) =
       List.map_filter figure_url (dropWhile (\<lambda>c. \<not> is_heading c) (content_nodes article))"
proof -
  have "concat (map images (sections_spec ys)) =
          concat (map (\<lambda>(h, blk). List.map_filter figure_url blk) (heading_blocks ys))" for ys
    by (simp add: sections_spec_def section_of_def case_prod_unfold comp_def)
  then show ?thesis
    by (simp add: sections_segment mainImage_segment main_image_spec_def
        images_after_first_heading main_image_foldl)
qed

theorem C4_main_image_witness:
  "truthy (main_image (initial_state\<lparr>main_image := Some ''a.png''\<rparr>))
   \<and> main_image (foldl process_content (initial_state\<lparr>main_image := Some ''a.png''\<rparr>)
        [Tag ''figure'' [] [Tag ''img'' [(''src'', ''b.png'')] []]]) = Some ''a.png''"
proof -
  have t: "truthy (main_image (initial_state\<lparr>main_image := Some ''a.png''\<rparr>))"
    by simp
  with C4_main_image [of example_article "initial_state\<lparr>main_image := Some ''a.png''\<rparr>"
      "[Tag ''figure'' [] [Tag ''img'' [(''src'', ''b.png'')] []]]"]
  show ?thesis by simp
qed

text \<open>
  Claim C5. The titles of the emitted sections are the texts of the visited heading
  nodes, one section per heading and in the same order; an article without a heading
  yields no section, whatever paragraphs it holds; and the nodes before the first
  heading do not change the section list.
\<close>

theorem C5_section_order:
  "map story_section.title (parsed_story.sections (segment article)) =
     map get_text (filter is_heading (content_nodes article))
   \<and> ((\<forall>c \<in> set (content_nodes article). \<not> is_heading c) \<longrightarrow>
        parsed_story.sections (segment article) = [])
   \<and> ((\<forall>c \<in> set pre. \<not> is_heading c) \<and> content_nodes article = pre @ content_nodes article'
        \<longrightarrow> parsed_story.sections (segment article) = parsed_story.sections (segment article'))"
proof -
  have "map story_section.title (sections_spec xs) = map get_text (map fst (heading_blocks xs))" for xs
    by (simp add: sections_spec_def section_of_def case_prod_unfold comp_def)
  then have titles: "map story_section.title (sections_spec xs) = map get_text (filter is_heading xs)" for xs
    by (simp add: heading_blocks_fst)
  have none: "\<forall>c \<in> set xs. \<not> is_heading c \<Longrightarrow> sections_spec xs = []" for xs
    using heading_blocks_append [of xs "[]"] by (simp add: sections_spec_def)
  have pre: "\<forall>c \<in> set pre. \<not> is_heading c \<Longrightarrow> sections_spec (pre @ xs) = sections_spec xs" for xs
    by (simp add: sections_spec_def heading_blocks_append)
  show ?thesis
    by (auto simp add: sections_segment titles none pre)
qed

theorem C5_section_order_witness:
  "map story_section.title (parsed_story.sections (segment example_article)) = [''Intro'', ''Next'']
   \<and> parsed_story.sections (segment (Tag ''article'' [] [Tag ''div'' [] [Tag ''p'' [] [NavigableString ''Lead'']]])) = []
   \<and> parsed_story.sections
         (segment (Tag ''article'' [] (Tag ''div'' [] [Tag ''p'' [] [NavigableString ''Lead'']] # children example_article)))
       = parsed_story.sections (segment example_article)"
proof -
  let ?lead = "Tag ''p'' [] [NavigableString ''Lead'']"
  let ?only = "Tag ''article'' [] [Tag ''div'' [] [?lead]]"
  let ?both = "Tag ''article'' [] (Tag ''div'' [] [?lead] # children example_article)"
  have a: "\<forall>c \<in> set (content_nodes ?only). \<not> is_heading c"
    by (simp add: content_nodes_def is_heading_def)
  have b: "(\<forall>c \<in> set [?lead]. \<not> is_heading c)
           \<and> content_nodes ?both = [?lead] @ content_nodes example_article"
    by (simp add: content_nodes_def is_heading_def example_article_def)
  have c: "map get_text (filter is_heading (content_nodes example_article)) = [''Intro'', ''Next'']"
    by (simp add: content_nodes_def is_heading_def example_article_def get_text_def
        all_strings_def strip_ex)
  show ?thesis
    using C5_section_order [of example_article "[]" example_article]
      C5_section_order [of ?only "[]" ?only]
      C5_section_order [of ?both "[?lead]" example_article] a b c
    by simp
qed

text \<open>
  Claim C6. Once the page has been fetched with a success status, \<open>parse_story\<close>
  fails if and only if the markup has no article container, and the failure is the
  ValueError that names the slug; with the container present it returns the
  segmentation of that container.
\<close>

theorem C6_not_found:
  assumes "page ev (''https://borderless.so/stories/'' @ sl) = Response status_code soup"
    and "\<not> raise_for_status status_code"
  shows "((\<exists>e. parse_story ev sl = Inl e) \<longleftrightarrow> find_tag soup ''article'' = None)
   \<and> (find_tag soup ''article'' = None \<longrightarrow>
        parse_story ev sl = Inl (ValueError (''Could not find article content for slug: '' @ sl)))
   \<and> (\<forall>article. find_tag soup ''article'' = Some article \<longrightarrow>
        parse_story ev sl = Inr (segment article))"
  using assms by (auto simp add: parse_story_def split: option.splits)

theorem C6_not_found_witness:
  "parse_story example_env ''empty'' =
     Inl (ValueError ''Could not find article content for slug: empty'')
   \<and> parse_story example_env ''two'' = Inr (segment example_article)"
proof -
  have p1: "page example_env (''https://borderless.so/stories/'' @ ''empty'')
              = Response 200 (Tag ''[document]'' [] [])"
    by (simp add: example_env_def example_page_def)
  have p2: "page example_env (''https://borderless.so/stories/'' @ ''two'') = Response 200 example_soup"
    by (simp add: example_env_def example_page_def)
  have ok: "\<not> raise_for_status 200"
    by (simp add: raise_for_status_def)
  have none: "find_tag (Tag ''[document]'' [] []) ''article'' = None"
    by (simp add: find_tag_def)
  show ?thesis
    using C6_not_found [OF p1 ok] C6_not_found [OF p2 ok] none find_example by simp
qed

text \<open>
  Claim C10. The body of every emitted section is the concatenation of the texts of
  the paragraphs of its block, each followed by one newline; so every body is empty
  or ends with a newline.
\<close>

theorem C10_body_newline:
  "map content (parsed_story.sections (segment article)) =
     map (\<lambda>(h, blk). concat (map (\<lambda>p. get_text p @ [CHR 0x0A]) (paragraphs blk)))
       (heading_blocks (content_nodes article))
   \<and> (\<forall>s \<in> set (parsed_story.sections (segment article)).
         content s = [] \<or> last (content s) = CHR 0x0A)"
proof -
  have "s \<in> set (sections_spec xs) \<Longrightarrow> content s = [] \<or> last (content s) = CHR 0x0A" for s xs
  proof -
    assume "s \<in> set (sections_spec xs)"
    then obtain h blk where "s = section_of h blk"
      by (auto simp add: sections_spec_def)
    then show ?thesis
      using body_spec_newline [of blk] by (simp add: section_of_def)
  qed
  moreover have "map content (sections_spec xs) =
      map (\<lambda>(h, blk). concat (map (\<lambda>p. get_text p @ [CHR 0x0A]) (paragraphs blk))) (heading_blocks xs)" for xs
    by (simp add: sections_spec_def section_of_def body_spec_def case_prod_unfold comp_def)
  ultimately show ?thesis
    by (simp add: sections_segment)
qed

theorem C10_body_newline_witness:
  "\<exists>s \<in> set (parsed_story.sections (segment example_article)).
      content s = ''Hello'' @ [CHR 0x0A] \<and> last (content s) = CHR 0x0A"
proof -
  let ?s = "\<lparr>title = ''Intro'', content = ''Hello'' @ [CHR 0x0A], images = [''a.png'']\<rparr>"
  have m: "?s \<in> set (parsed_story.sections (segment example_article))"
    by (simp add: segment_example)
  have "content ?s = [] \<or> last (content ?s) = CHR 0x0A"
    using C10_body_newline [of example_article] m by blast
  then have "content ?s = ''Hello'' @ [CHR 0x0A] \<and> last (content ?s) = CHR 0x0A"
    by simp
  with m show ?thesis
    by blast
qed

section \<open>Batches\<close>

lemma foldl_collect:
  "foldl (collect ev) acc its = acc @ List.map_filter (enriched ev) its"
  by (induction its arbitrary: acc) (simp_all add: collect_def enriched_def split: sum.splits)

lemma process_story_Inr:
  "process_story ev story = Inr full \<Longrightarrow>
   \<exists>parsed. parse_story ev (slug story) = Inr parsed
     \<and> full = story_item.extend story
                (full_story.fields (parsed_story.sections parsed) (parsed_story.mainImage parsed))"
  by (auto simp add: process_story_def split: sum.splits)

lemma truncate_extend:
  "story_item.truncate (story_item.extend story (full_story.fields secs img)) = story"
  by (simp add: story_item.defs full_story.defs)

lemma extend_fields:
  "full_story.sections (story_item.extend story (full_story.fields secs img)) = secs"
  "full_story.mainImage (story_item.extend story (full_story.fields secs img)) = img"
  "story_item.title (story_item.extend story (full_story.fields secs img)) = story_item.title story"
  "author (story_item.extend story (full_story.fields secs img)) = author story"
  "org (story_item.extend story (full_story.fields secs img)) = org story"
  "story_item.createdAt (story_item.extend story (full_story.fields secs img))
     = story_item.createdAt story"
  by (simp_all add: story_item.defs full_story.defs)

lemma enriched_truncate:
  "enriched ev story = Some full \<Longrightarrow> story_item.truncate full = story"
proof -
  assume "enriched ev story = Some full"
  then have "process_story ev story = Inr full"
    by (simp add: enriched_def split: sum.splits)
  then show ?thesis
    using process_story_Inr truncate_extend by blast
qed

lemma enriched_fails: "enriched ev story = None \<longleftrightarrow> fails ev story"
  by (simp add: enriched_def fails_def split: sum.splits)

lemma map_filter_enriched_truncate:
  "map story_item.truncate (List.map_filter (enriched ev) its) = filter (\<lambda>s. \<not> fails ev s) its"
proof (induction its)
  case Nil
  show ?case by simp
next
  case (Cons s its)
  show ?case
  proof (cases "enriched ev s")
    case None
    with Cons show ?thesis by (simp add: enriched_fails [symmetric])
  next
    case (Some full)
    with Cons enriched_truncate [OF Some] show ?thesis
      by (simp add: enriched_fails [symmetric])
  qed
qed

lemma length_map_filter_enriched:
  "length (List.map_filter (enriched ev) its) + length (filter (fails ev) its) = length its"
proof -
  have "length (List.map_filter (enriched ev) its) = length (filter (\<lambda>s. \<not> fails ev s) its)"
    using map_filter_enriched_truncate [of ev its, THEN arg_cong, of length] by simp
  then show ?thesis
    using sum_length_filter_compl [of "fails ev" its] by simp
qed

lemma mset_map_filter:
  "mset (List.map_filter f xs) = image_mset (the \<circ> f) (filter_mset (\<lambda>x. f x \<noteq> None) (mset xs))"
  by (simp add: List.map_filter_def)

text \<open>
  Claim C8. In sequential mode the batch is the list of the full stories of the
  summaries that do not fail, in listing order: its summaries are the listing's
  summaries with the failing ones removed.
\<close>

theorem C8_sequential_order:
  "process_batch ev False max_workers its = Inr (List.map_filter (enriched ev) its)
   \<and> map story_item.truncate (List.map_filter (enriched ev) its)
       = filter (\<lambda>story. \<not> fails ev story) its"
  by (simp add: process_batch_def foldl_collect map_filter_enriched_truncate)

text \<open>
  Claim C9. A full story built by \<open>process_story\<close> carries the summary unchanged
  (title, author, organization and creation time among its fields), and takes from
  \<open>parse_story\<close> the section list and the main image, the only two fields the
  parsed value has.
\<close>

theorem C9_metadata_from_summary:
  assumes "process_story ev story = Inr full"
  shows "story_item.truncate full = story
   \<and> story_item.title full = story_item.title story
   \<and> author full = author story
   \<and> org full = org story
   \<and> story_item.createdAt full = story_item.createdAt story
   \<and> (\<exists>secs img. parse_story ev (slug story) =
                      Inr \<lparr>parsed_story.sections = secs, parsed_story.mainImage = img\<rparr>
         \<and> full_story.sections full = secs \<and> full_story.mainImage full = img)"
proof -
  obtain parsed where p: "parse_story ev (slug story) = Inr parsed"
    and f: "full = story_item.extend story
              (full_story.fields (parsed_story.sections parsed) (parsed_story.mainImage parsed))"
    using process_story_Inr [OF assms] by blast
  have "parsed = \<lparr>parsed_story.sections = parsed_story.sections parsed,
                    parsed_story.mainImage = parsed_story.mainImage parsed\<rparr>"
    by simp
  with p have "\<exists>secs img. parse_story ev (slug story) =
                      Inr \<lparr>parsed_story.sections = secs, parsed_story.mainImage = img\<rparr>
         \<and> full_story.sections full = secs \<and> full_story.mainImage full = img"
    unfolding f extend_fields by metis
  then show ?thesis
    unfolding f by (simp only: truncate_extend extend_fields simp_thms)
qed

lemma length_map_filter_perm:
  "mset xs = mset ys \<Longrightarrow> length (List.map_filter f xs) = length (List.map_filter f ys)"
proof -
  assume "mset xs = mset ys"
  then have "mset (List.map_filter f xs) = mset (List.map_filter f ys)"
    by (simp add: mset_map_filter)
  then show ?thesis
    by (rule mset_eq_length)
qed

lemma process_batch_sequential:
  "process_batch ev False max_workers its = Inr (List.map_filter (enriched ev) its)"
  by (simp add: process_batch_def foldl_collect)

lemma process_batch_parallel:
  "0 < max_workers \<Longrightarrow>
   process_batch ev True max_workers its
     = Inr (List.map_filter (enriched ev) (completion_order ev its))"
  by (simp add: process_batch_def foldl_collect)

lemma process_batch_total:
  "(parallel \<longrightarrow> 0 < max_workers) \<Longrightarrow> \<exists>batch. process_batch ev parallel max_workers its = Inr batch"
  by (auto simp add: process_batch_def)

section \<open>The pagination loop\<close>

lemma loop_Raise:
  "loop_body ev count' parallel max_workers cur all_stories = Raise e \<Longrightarrow>
   pagination_loop ev count' parallel max_workers cur all_stories = Some (Inl e)"
  by (subst pagination_loop.simps) simp

lemma loop_Return:
  "loop_body ev count' parallel max_workers cur all_stories = Return result \<Longrightarrow>
   pagination_loop ev count' parallel max_workers cur all_stories = Some (Inr result)"
  by (subst pagination_loop.simps) simp

lemma loop_Next:
  "loop_body ev count' parallel max_workers cur all_stories = Next c all' \<Longrightarrow>
   pagination_loop ev count' parallel max_workers cur all_stories
     = pagination_loop ev count' parallel max_workers (Some c) all'"
  by (subst pagination_loop.simps) simp

lemma loop_body_fetch_fails:
  "fetch_stories ev ''en'' 10 [''Bachelor''] cur = Inl e \<Longrightarrow>
   loop_body ev count' parallel max_workers cur all_stories = Raise e"
  by (simp add: loop_body_def)

lemma loop_body_batch_fails:
  "fetch_stories ev ''en'' 10 [''Bachelor''] cur = Inr resp \<Longrightarrow>
   process_batch ev parallel max_workers (items resp) = Inl e \<Longrightarrow>
   loop_body ev count' parallel max_workers cur all_stories = Raise e"
  by (simp add: loop_body_def)

lemma loop_body_ok:
  "fetch_stories ev ''en'' 10 [''Bachelor''] cur = Inr resp \<Longrightarrow>
   process_batch ev parallel max_workers (items resp) = Inr batch \<Longrightarrow>
   loop_body ev count' parallel max_workers cur all_stories =
     (if count' \<noteq> - 1 \<and> count' \<le> int (length (all_stories @ batch))
      then Return (slice_to (all_stories @ batch) count')
      else (case nextCursor resp of
              None \<Rightarrow> Return (all_stories @ batch)
            | Some c \<Rightarrow> Next c (all_stories @ batch)))"
  by (simp add: loop_body_def Let_def)

lemma take_budget:
  "0 \<le> N \<Longrightarrow> N \<le> int (length xs) \<Longrightarrow> int (length (take (nat N) xs)) = N"
proof -
  assume "0 \<le> N" and "N \<le> int (length xs)"
  then have "nat N \<le> length xs" by linarith
  with \<open>0 \<le> N\<close> show ?thesis by simp
qed

lemma process_batch_Inr:
  "process_batch ev parallel max_workers its = Inr batch \<Longrightarrow> batch = batch_of ev parallel its"
  by (auto simp add: process_batch_def batch_of_def foldl_collect split: if_splits)

lemma process_batch_valid:
  "(parallel \<longrightarrow> 0 < max_workers) \<Longrightarrow>
   process_batch ev parallel max_workers its = Inr (batch_of ev parallel its)"
  by (auto simp add: process_batch_def batch_of_def foldl_collect)

lemma loop_body_Return_cases:
  assumes "loop_body ev N parallel max_workers cur all_stories = Return result" and "0 \<le> N"
  shows "int (length result) = N
    \<or> (int (length result) < N
        \<and> (\<exists>resp. fetch_stories ev ''en'' 10 [''Bachelor''] cur = Inr resp
              \<and> nextCursor resp = None
              \<and> result = all_stories @ batch_of ev parallel (items resp)))"
proof (cases "fetch_stories ev ''en'' 10 [''Bachelor''] cur")
  case (Inl e)
  with assms show ?thesis by (simp add: loop_body_fetch_fails)
next
  case (Inr resp)
  show ?thesis
  proof (cases "process_batch ev parallel max_workers (items resp)")
    case (Inl e)
    with Inr assms show ?thesis by (simp add: loop_body_batch_fails)
  next
    case batch: (Inr batch)
    note b = process_batch_Inr [OF batch]
    show ?thesis
    proof (cases "N \<le> int (length (all_stories @ batch))")
      case True
      with assms have r: "result = take (nat N) (all_stories @ batch)"
        by (simp add: loop_body_ok [OF Inr batch] slice_to_def)
      have "int (length result) = N"
        unfolding r by (rule take_budget [OF assms(2) True])
      then show ?thesis by simp
    next
      case False
      with assms have "nextCursor resp = None \<and> result = all_stories @ batch"
        by (simp add: loop_body_ok [OF Inr batch] split: option.splits)
      with False Inr b show ?thesis by auto
    qed
  qed
qed

lemma loop_body_Next_cases:
  assumes "loop_body ev N parallel max_workers cur all_stories = Next c all'"
  shows "\<exists>resp. fetch_stories ev ''en'' 10 [''Bachelor''] cur = Inr resp
           \<and> nextCursor resp = Some c
           \<and> all' = all_stories @ batch_of ev parallel (items resp)"
proof (cases "fetch_stories ev ''en'' 10 [''Bachelor''] cur")
  case (Inl e)
  with assms show ?thesis by (simp add: loop_body_fetch_fails)
next
  case (Inr resp)
  show ?thesis
  proof (cases "process_batch ev parallel max_workers (items resp)")
    case (Inl e)
    with Inr assms show ?thesis by (simp add: loop_body_batch_fails)
  next
    case batch: (Inr batch)
    from assms have "nextCursor resp = Some c \<and> all' = all_stories @ batch"
      by (simp add: loop_body_ok [OF Inr batch] split: if_splits option.splits)
    with Inr process_batch_Inr [OF batch] show ?thesis by simp
  qed
qed

lemma loop_bound:
  assumes "pagination_loop ev N parallel max_workers cur all_stories = Some y"
  shows "0 \<le> N \<longrightarrow> (\<forall>out. y = Inr out \<longrightarrow>
      int (length out) \<le> N
      \<and> (int (length out) \<noteq> N \<longrightarrow>
           (\<exists>rs. serves ev cur rs \<and> out = all_stories @ walk_records ev parallel rs)))"
proof (rule pagination_loop.raw_induct
    [where P = "\<lambda>ev N parallel max_workers cur all_stories y.
       0 \<le> N \<longrightarrow> (\<forall>out. y = Inr out \<longrightarrow>
         int (length out) \<le> N
         \<and> (int (length out) \<noteq> N \<longrightarrow>
           (\<exists>rs. serves ev cur rs \<and> out = all_stories @ walk_records ev parallel rs)))",
     OF _ assms], goal_cases)
  case (1 loop ev N parallel max_workers cur all_stories y)
  show ?case
  proof (cases "loop_body ev N parallel max_workers cur all_stories")
    case (Raise e)
    with 1(2) show ?thesis by auto
  next
    case (Return result)
    with 1(2) have y: "y = Inr result" by simp
    show ?thesis
    proof (intro impI allI)
      fix out
      assume n: "0 \<le> N" and "y = Inr out"
      with y have o: "out = result" by simp
      from loop_body_Return_cases [OF Return n]
      show "int (length out) \<le> N
         \<and> (int (length out) \<noteq> N \<longrightarrow>
           (\<exists>rs. serves ev cur rs \<and> out = all_stories @ walk_records ev parallel rs))"
      proof
        assume "int (length result) = N"
        with o show ?thesis by simp
      next
        assume "int (length result) < N
          \<and> (\<exists>resp. fetch_stories ev ''en'' 10 [''Bachelor''] cur = Inr resp
                \<and> nextCursor resp = None
                \<and> result = all_stories @ batch_of ev parallel (items resp))"
        then obtain resp where l: "int (length result) < N"
          and r: "fetch_stories ev ''en'' 10 [''Bachelor''] cur = Inr resp"
          and c: "nextCursor resp = None"
          and e: "result = all_stories @ batch_of ev parallel (items resp)"
          by blast
        have "serves ev cur [resp]"
          using r c by simp
        moreover have "out = all_stories @ walk_records ev parallel [resp]"
          using e o by (simp add: walk_records_def)
        ultimately have "\<exists>rs. serves ev cur rs \<and> out = all_stories @ walk_records ev parallel rs"
          by blast
        with l o show ?thesis by simp
      qed
    qed
  next
    case (Next c all')
    with 1(2) have rec: "loop ev N parallel max_workers (Some c) all' = Some y" by simp
    from loop_body_Next_cases [OF Next] obtain resp
      where r: "fetch_stories ev ''en'' 10 [''Bachelor''] cur = Inr resp"
        and c: "nextCursor resp = Some c"
        and a: "all' = all_stories @ batch_of ev parallel (items resp)"
      by blast
    show ?thesis
    proof (intro impI allI)
      fix out
      assume n: "0 \<le> N" and y: "y = Inr out"
      from 1(1) [OF rec] n y
      have le: "int (length out) \<le> N"
        and ex: "int (length out) \<noteq> N \<longrightarrow>
           (\<exists>rs. serves ev (Some c) rs \<and> out = all' @ walk_records ev parallel rs)"
        by blast+
      have "int (length out) \<noteq> N \<longrightarrow>
          (\<exists>rs. serves ev cur rs \<and> out = all_stories @ walk_records ev parallel rs)"
      proof
        assume "int (length out) \<noteq> N"
        with ex obtain rs where s: "serves ev (Some c) rs"
          and o: "out = all' @ walk_records ev parallel rs"
          by blast
        have "serves ev cur (resp # rs)"
          using r c s by simp
        moreover have "out = all_stories @ walk_records ev parallel (resp # rs)"
          using o a by (simp add: walk_records_def)
        ultimately show "\<exists>rs. serves ev cur rs \<and> out = all_stories @ walk_records ev parallel rs"
          by blast
      qed
      with le show "int (length out) \<le> N
         \<and> (int (length out) \<noteq> N \<longrightarrow>
           (\<exists>rs. serves ev cur rs \<and> out = all_stories @ walk_records ev parallel rs))"
        by simp
    qed
  qed
qed

lemma walk_exact:
  assumes "parallel \<longrightarrow> 0 < max_workers" and "0 \<le> N"
  shows "serves_prefix ev cur rs \<Longrightarrow>
    N \<le> int (length (all_stories @ walk_records ev parallel rs)) \<Longrightarrow>
    pagination_loop ev N parallel max_workers cur all_stories
      = Some (Inr (take (nat N) (all_stories @ walk_records ev parallel rs)))"
proof (induction rs arbitrary: cur all_stories)
  case Nil
  then show ?case by simp
next
  case (Cons resp rs)
  let ?batch = "batch_of ev parallel (items resp)"
  have r: "fetch_stories ev ''en'' 10 [''Bachelor''] cur = Inr resp"
    using Cons.prems(1) by (cases rs) simp_all
  note b = process_batch_valid [OF assms(1), of ev "items resp"]
  have w: "walk_records ev parallel (resp # rs) = ?batch @ walk_records ev parallel rs"
    by (simp add: walk_records_def)
  show ?case
  proof (cases "N \<le> int (length (all_stories @ ?batch))")
    case True
    with assms(2) have "loop_body ev N parallel max_workers cur all_stories
        = Return (take (nat N) (all_stories @ ?batch))"
      by (simp add: loop_body_ok [OF r b] slice_to_def)
    then have "pagination_loop ev N parallel max_workers cur all_stories
        = Some (Inr (take (nat N) (all_stories @ ?batch)))"
      by (rule loop_Return)
    moreover from True assms(2) have "nat N \<le> length (all_stories @ ?batch)"
      by linarith
    then have "take (nat N) ((all_stories @ ?batch) @ walk_records ev parallel rs)
        = take (nat N) (all_stories @ ?batch)"
      by (simp only: take_append diff_is_0_eq' take_0 append_Nil2)
    ultimately show ?thesis
      by (simp only: w append_assoc)
  next
    case False
    with Cons.prems(2) have "rs \<noteq> []"
      by (auto simp add: walk_records_def)
    then obtain r' rs' where rs: "rs = r' # rs'"
      by (cases rs) auto
    with Cons.prems(1) obtain c where c: "nextCursor resp = Some c"
      and s: "serves_prefix ev (Some c) rs"
      by (auto split: option.splits)
    from False c have "loop_body ev N parallel max_workers cur all_stories
        = Next c (all_stories @ ?batch)"
      by (simp add: loop_body_ok [OF r b])
    then have "pagination_loop ev N parallel max_workers cur all_stories
        = pagination_loop ev N parallel max_workers (Some c) (all_stories @ ?batch)"
      by (rule loop_Next)
    moreover have "N \<le> int (length ((all_stories @ ?batch) @ walk_records ev parallel rs))"
      using Cons.prems(2) by (simp add: w)
    ultimately show ?thesis
      using Cons.IH [OF s, of "all_stories @ ?batch"] by (simp add: w)
  qed
qed

lemma loop_supplied:
  assumes endless: "\<And>c. \<exists>resp batch. fetch_stories ev ''en'' 10 [''Bachelor''] c = Inr resp
            \<and> nextCursor resp \<noteq> None
            \<and> process_batch ev parallel max_workers (items resp) = Inr batch \<and> batch \<noteq> []"
    and "0 \<le> N"
  shows "nat N - length all_stories \<le> k \<Longrightarrow>
    \<exists>out. pagination_loop ev N parallel max_workers cur all_stories = Some (Inr out)
      \<and> int (length out) = N"
proof (induction k arbitrary: cur all_stories)
  case 0
  obtain resp batch where r: "fetch_stories ev ''en'' 10 [''Bachelor''] cur = Inr resp"
    and b: "process_batch ev parallel max_workers (items resp) = Inr batch"
    using endless [of cur] by blast
  from 0 assms(2) have "N \<le> int (length (all_stories @ batch))" by simp
  with assms(2) have "loop_body ev N parallel max_workers cur all_stories
      = Return (take (nat N) (all_stories @ batch))"
    by (simp add: loop_body_ok [OF r b] slice_to_def)
  from loop_Return [OF this] take_budget [OF assms(2) \<open>N \<le> int (length (all_stories @ batch))\<close>]
  show ?case by blast
next
  case (Suc k)
  obtain resp batch where r: "fetch_stories ev ''en'' 10 [''Bachelor''] cur = Inr resp"
    and n: "nextCursor resp \<noteq> None"
    and b: "process_batch ev parallel max_workers (items resp) = Inr batch"
    and ne: "batch \<noteq> []"
    using endless [of cur] by blast
  show ?case
  proof (cases "N \<le> int (length (all_stories @ batch))")
    case True
    with assms(2) have "loop_body ev N parallel max_workers cur all_stories
        = Return (take (nat N) (all_stories @ batch))"
      by (simp add: loop_body_ok [OF r b] slice_to_def)
    from loop_Return [OF this] take_budget [OF assms(2) True] show ?thesis by blast
  next
    case False
    from n obtain c where c: "nextCursor resp = Some c" by auto
    with False have "loop_body ev N parallel max_workers cur all_stories
        = Next c (all_stories @ batch)"
      by (simp add: loop_body_ok [OF r b])
    then have step: "pagination_loop ev N parallel max_workers cur all_stories
        = pagination_loop ev N parallel max_workers (Some c) (all_stories @ batch)"
      by (rule loop_Next)
    from Suc.prems ne have "nat N - length (all_stories @ batch) \<le> k"
      by (cases batch) simp_all
    from Suc.IH [OF this, of "Some c"] step show ?thesis by simp
  qed
qed

text \<open>
  Claim C2. For a budget \<open>N \<ge> 0\<close>: whatever the loop returns has at most \<open>N\<close>
  records, and fewer than \<open>N\<close> only if the walk itself reached a response without
  a next cursor, in which case the result is every batch of the walk. When the pages
  the walk is served hold at least \<open>N\<close> records in their batches (together with
  what was accumulated), the loop returns exactly the first \<open>N\<close> of them; it
  returns them on the turn the accumulator reaches or exceeds \<open>N\<close>, without a
  further request. And when every listing response carries a cursor and a non-empty
  batch, \<open>fetch_full_stories\<close> returns exactly \<open>N\<close> records.
\<close>

theorem C2_budget:
  assumes "0 \<le> N"
  shows "(pagination_loop ev N parallel max_workers cur all_stories = Some (Inr out) \<longrightarrow>
      int (length out) \<le> N
      \<and> (int (length out) \<noteq> N \<longrightarrow>
           (\<exists>rs. serves ev cur rs \<and> out = all_stories @ walk_records ev parallel rs)))
   \<and> (serves_prefix ev cur rs \<and> (parallel \<longrightarrow> 0 < max_workers)
        \<and> N \<le> int (length (all_stories @ walk_records ev parallel rs)) \<longrightarrow>
      pagination_loop ev N parallel max_workers cur all_stories
        = Some (Inr (take (nat N) (all_stories @ walk_records ev parallel rs)))
      \<and> int (length (take (nat N) (all_stories @ walk_records ev parallel rs))) = N)
   \<and> (fetch_stories ev ''en'' 10 [''Bachelor''] cur = Inr resp
        \<and> process_batch ev parallel max_workers (items resp) = Inr batch
        \<and> N \<le> int (length (all_stories @ batch)) \<longrightarrow>
      pagination_loop ev N parallel max_workers cur all_stories
        = Some (Inr (take (nat N) (all_stories @ batch)))
      \<and> int (length (take (nat N) (all_stories @ batch))) = N)
   \<and> ((\<forall>c. \<exists>resp batch. fetch_stories ev ''en'' 10 [''Bachelor''] c = Inr resp
            \<and> nextCursor resp \<noteq> None
            \<and> process_batch ev parallel max_workers (items resp) = Inr batch \<and> batch \<noteq> []) \<longrightarrow>
      (\<exists>out. fetch_full_stories ev N parallel max_workers = Some (Inr out)
         \<and> int (length out) = N))"
proof (intro conjI impI)
  assume "pagination_loop ev N parallel max_workers cur all_stories = Some (Inr out)"
  from loop_bound [OF this] assms
  show "int (length out) \<le> N" by blast
next
  assume "pagination_loop ev N parallel max_workers cur all_stories = Some (Inr out)"
    and "int (length out) \<noteq> N"
  with loop_bound [of ev N parallel max_workers cur all_stories "Inr out"] assms
  show "\<exists>rs. serves ev cur rs \<and> out = all_stories @ walk_records ev parallel rs"
    by blast
next
  assume h: "serves_prefix ev cur rs \<and> (parallel \<longrightarrow> 0 < max_workers)
        \<and> N \<le> int (length (all_stories @ walk_records ev parallel rs))"
  then show "pagination_loop ev N parallel max_workers cur all_stories
        = Some (Inr (take (nat N) (all_stories @ walk_records ev parallel rs)))"
    using walk_exact [OF _ assms, of parallel max_workers ev cur rs all_stories] by blast
  from h take_budget [OF assms, of "all_stories @ walk_records ev parallel rs"]
  show "int (length (take (nat N) (all_stories @ walk_records ev parallel rs))) = N"
    by blast
next
  assume h: "fetch_stories ev ''en'' 10 [''Bachelor''] cur = Inr resp
        \<and> process_batch ev parallel max_workers (items resp) = Inr batch
        \<and> N \<le> int (length (all_stories @ batch))"
  with assms have "loop_body ev N parallel max_workers cur all_stories
      = Return (take (nat N) (all_stories @ batch))"
    by (simp add: loop_body_ok [of ev cur resp parallel max_workers batch] slice_to_def)
  then show "pagination_loop ev N parallel max_workers cur all_stories
        = Some (Inr (take (nat N) (all_stories @ batch)))"
    by (rule loop_Return)
  from h take_budget [OF assms, of "all_stories @ batch"]
  show "int (length (take (nat N) (all_stories @ batch))) = N"
    by blast
next
  assume "\<forall>c. \<exists>resp batch. fetch_stories ev ''en'' 10 [''Bachelor''] c = Inr resp
            \<and> nextCursor resp \<noteq> None
            \<and> process_batch ev parallel max_workers (items resp) = Inr batch \<and> batch \<noteq> []"
  then have "\<And>c. \<exists>resp batch. fetch_stories ev ''en'' 10 [''Bachelor''] c = Inr resp
            \<and> nextCursor resp \<noteq> None
            \<and> process_batch ev parallel max_workers (items resp) = Inr batch \<and> batch \<noteq> []"
    by blast
  from loop_supplied [OF this assms, of "[]" "nat N" None]
  show "\<exists>out. fetch_full_stories ev N parallel max_workers = Some (Inr out)
         \<and> int (length out) = N"
    by (simp add: fetch_full_stories_def)
qed

section \<open>The example service, evaluated\<close>

lemma find_no_article: "find_tag (Tag ''[document]'' [] []) ''article'' = None"
  by (simp add: find_tag_def)

lemma parse_story_example_page:
  "page ev = example_page \<Longrightarrow>
   parse_story ev s =
     (if s = ''bad'' then Inl (HTTPError 404)
      else if s = ''empty''
        then Inl (ValueError (''Could not find article content for slug: '' @ s))
      else Inr (segment example_article))"
  by (simp add: parse_story_def example_page_def raise_for_status_def find_example find_no_article)

lemma process_story_example_page:
  "page ev = example_page \<Longrightarrow> s \<noteq> ''bad'' \<Longrightarrow> s \<noteq> ''empty'' \<Longrightarrow>
   process_story ev (example_item s) = Inr (example_full s)"
  by (simp add: process_story_def parse_story_example_page example_item_def example_full_def)

lemma process_story_example_bad:
  "page ev = example_page \<Longrightarrow> process_story ev (example_item ''bad'') = Inl (HTTPError 404)"
  by (simp add: process_story_def parse_story_example_page example_item_def)

lemma page_example_envs:
  "page example_env = example_page" "page broken_env = example_page"
  "page endless_env = example_page"
  by (simp_all add: example_env_def broken_env_def endless_env_def)

lemma fetch_stories_example:
  "fetch_stories example_env ''en'' 10 [''Bachelor''] None = Inr example_page_one"
  "fetch_stories example_env ''en'' 10 [''Bachelor''] (Some example_cursor) = Inr example_page_two"
  by (simp_all add: fetch_stories_def create_request_payload_def example_env_def
      example_listing_def raise_for_status_def)

lemma slug_example_full: "slug (example_full s) = s"
  by (simp add: example_full_def example_item_def story_item.defs full_story.defs)

text \<open>
  Claim C1. A batch in which exactly one summary fails (its page cannot be fetched
  or has no article) yields a batch of the others, one record fewer than the
  summaries, and no error: in sequential mode always, in parallel mode for a pool of
  positive width whose completion order is a permutation of the batch. A listing
  request that is answered with an error status or an undecodable envelope makes
  \<open>fetch_stories\<close> raise, and an error of \<open>fetch_stories\<close> leaves the loop at once
  as the error of \<open>fetch_full_stories\<close>, whatever has been accumulated.
\<close>

theorem C1_error_asymmetry:
  "(length (filter (fails ev) its) = 1
      \<and> (parallel \<longrightarrow> 0 < max_workers \<and> mset (completion_order ev its) = mset its) \<longrightarrow>
      (\<exists>batch_stories. process_batch ev parallel max_workers its = Inr batch_stories
         \<and> length batch_stories = length its - 1
         \<and> mset (map story_item.truncate batch_stories)
             = mset (filter (\<lambda>story. \<not> fails ev story) its)))
   \<and> (listing ev (create_request_payload ''en'' 10 [''Bachelor''] cur) = Response status_code body
        \<and> (raise_for_status status_code \<or> body = None) \<longrightarrow>
      (\<exists>e. fetch_stories ev ''en'' 10 [''Bachelor''] cur = Inl e))
   \<and> (fetch_stories ev ''en'' 10 [''Bachelor''] cur = Inl e \<longrightarrow>
      pagination_loop ev count' parallel max_workers cur all_stories = Some (Inl e))"
proof (intro conjI impI)
  assume h: "length (filter (fails ev) its) = 1
      \<and> (parallel \<longrightarrow> 0 < max_workers \<and> mset (completion_order ev its) = mset its)"
  define order where "order = (if parallel then completion_order ev its else its)"
  have perm: "mset order = mset its"
    using h by (simp add: order_def)
  have batch: "process_batch ev parallel max_workers its = Inr (List.map_filter (enriched ev) order)"
    using h by (cases parallel) (simp_all add: order_def process_batch_sequential process_batch_parallel)
  have "length (List.map_filter (enriched ev) order) = length (List.map_filter (enriched ev) its)"
    using perm by (rule length_map_filter_perm)
  with h length_map_filter_enriched [of ev its]
  have len: "length (List.map_filter (enriched ev) order) = length its - 1"
    by simp
  have "mset (map story_item.truncate (List.map_filter (enriched ev) order))
          = mset (filter (\<lambda>story. \<not> fails ev story) order)"
    by (simp add: map_filter_enriched_truncate)
  also have "\<dots> = mset (filter (\<lambda>story. \<not> fails ev story) its)"
    using perm by simp
  finally show "\<exists>batch_stories. process_batch ev parallel max_workers its = Inr batch_stories
         \<and> length batch_stories = length its - 1
         \<and> mset (map story_item.truncate batch_stories)
             = mset (filter (\<lambda>story. \<not> fails ev story) its)"
    using batch len by blast
next
  assume "listing ev (create_request_payload ''en'' 10 [''Bachelor''] cur) = Response status_code body
        \<and> (raise_for_status status_code \<or> body = None)"
  then show "\<exists>e. fetch_stories ev ''en'' 10 [''Bachelor''] cur = Inl e"
    by (auto simp add: fetch_stories_def)
next
  assume "fetch_stories ev ''en'' 10 [''Bachelor''] cur = Inl e"
  then have "loop_body ev count' parallel max_workers cur all_stories = Raise e"
    by (rule loop_body_fetch_fails)
  then show "pagination_loop ev count' parallel max_workers cur all_stories = Some (Inl e)"
    by (rule loop_Raise)
qed

theorem C1_error_asymmetry_witness:
  "(\<exists>batch_stories.
      process_batch example_env True 3
        [example_item ''one'', example_item ''bad'', example_item ''two''] = Inr batch_stories
      \<and> length batch_stories = 2)
   \<and> fetch_full_stories broken_env 20 True 3 = Some (Inl (HTTPError 500))"
proof -
  let ?its = "[example_item ''one'', example_item ''bad'', example_item ''two'']"
  have f: "length (filter (fails example_env) ?its) = 1"
    by (simp add: fails_def process_story_example_page process_story_example_bad
        page_example_envs)
  have p: "True \<longrightarrow> (0::int) < 3 \<and> mset (completion_order example_env ?its) = mset ?its"
    by (simp add: example_env_def)
  have l: "listing broken_env (create_request_payload ''en'' 10 [''Bachelor''] None)
             = Response 500 None \<and> (raise_for_status 500 \<or> (None :: api_response option) = None)"
    by (simp add: broken_env_def example_env_def)
  have e: "fetch_stories broken_env ''en'' 10 [''Bachelor''] None = Inl (HTTPError 500)"
    by (simp add: fetch_stories_def broken_env_def example_env_def raise_for_status_def)
  have a: "\<exists>batch_stories. process_batch example_env True 3 ?its = Inr batch_stories
         \<and> length batch_stories = length ?its - 1
         \<and> mset (map story_item.truncate batch_stories)
             = mset (filter (\<lambda>story. \<not> fails example_env story) ?its)"
    using C1_error_asymmetry [of example_env ?its True 3] f p by blast
  have b: "pagination_loop broken_env 20 True 3 None [] = Some (Inl (HTTPError 500))"
    using C1_error_asymmetry [of broken_env "[]" True 3 None 500 None "HTTPError 500" 20 "[]"] l e
    by blast
  from a obtain batch_stories
    where "process_batch example_env True 3 ?its = Inr batch_stories"
      and "length batch_stories = length ?its - 1"
    by blast
  then have "process_batch example_env True 3 ?its = Inr batch_stories \<and> length batch_stories = 2"
    by simp
  with b show ?thesis
    unfolding fetch_full_stories_def by blast
qed

theorem C2_budget_witness:
  "fetch_full_stories example_env 3 False 5
     = Some (Inr [example_full ''one'', example_full ''two'', example_full ''three''])
   \<and> fetch_full_stories example_env 2 False 5
     = Some (Inr [example_full ''one'', example_full ''two''])
   \<and> (\<exists>rs. serves example_env None rs
         \<and> [example_full ''one'', example_full ''two'', example_full ''three'']
             = [] @ walk_records example_env False rs)
   \<and> (\<exists>out. fetch_full_stories endless_env 2 False 5 = Some (Inr out) \<and> int (length out) = 2)"
proof -
  let ?all = "[example_full ''one'', example_full ''two'', example_full ''three'']"
  have n2: "(0::int) \<le> 2" and n3: "(0::int) \<le> 3" and n5: "(0::int) \<le> 5"
    by simp_all
  have b1: "batch_of example_env False (items example_page_one)
              = [example_full ''one'', example_full ''two'']"
    by (simp add: batch_of_def enriched_def example_page_one_def
        process_story_example_page process_story_example_bad page_example_envs)
  have b2: "batch_of example_env False (items example_page_two) = [example_full ''three'']"
    by (simp add: batch_of_def enriched_def example_page_two_def
        process_story_example_page page_example_envs)
  have nc: "nextCursor example_page_one = Some example_cursor" "nextCursor example_page_two = None"
    by (simp_all add: example_page_one_def example_page_two_def)
  have w: "walk_records example_env False [example_page_one, example_page_two] = ?all"
    by (simp add: walk_records_def b1 b2)
  have p: "serves_prefix example_env None [example_page_one, example_page_two]"
    by (simp add: fetch_stories_example example_page_one_def)
  have three: "pagination_loop example_env 3 False 5 None []
      = Some (Inr (take (nat 3) ([] @ walk_records example_env False
                                        [example_page_one, example_page_two])))"
    using C2_budget [OF n3, of example_env False 5 None "[]" _
      "[example_page_one, example_page_two]"] p
    by (simp add: w)
  have first: "fetch_stories example_env ''en'' 10 [''Bachelor''] None = Inr example_page_one
      \<and> process_batch example_env False 5 (items example_page_one)
            = Inr [example_full ''one'', example_full ''two'']
      \<and> (2::int) \<le> int (length ([] @ [example_full ''one'', example_full ''two'']))"
    using b1 by (simp add: fetch_stories_example process_batch_valid)
  have two: "pagination_loop example_env 2 False 5 None []
             = Some (Inr (take (nat 2) ([] @ [example_full ''one'', example_full ''two''])))"
    using C2_budget [OF n2, of example_env False 5 None "[]" _ _ example_page_one
      "[example_full ''one'', example_full ''two'']"] first by blast
  have five: "pagination_loop example_env 5 False 5 None [] = Some (Inr ?all)"
  proof -
    have "loop_body example_env 5 False 5 None []
        = Next example_cursor [example_full ''one'', example_full ''two'']"
      using loop_body_ok [OF fetch_stories_example(1)
          process_batch_valid [of False 5 example_env "items example_page_one"], of 5 "[]"]
      by (simp add: b1 nc)
    then have "pagination_loop example_env 5 False 5 None []
        = pagination_loop example_env 5 False 5 (Some example_cursor)
            [example_full ''one'', example_full ''two'']"
      by (rule loop_Next)
    moreover have "loop_body example_env 5 False 5 (Some example_cursor)
          [example_full ''one'', example_full ''two''] = Return ?all"
      using loop_body_ok [OF fetch_stories_example(2)
          process_batch_valid [of False 5 example_env "items example_page_two"], of 5
          "[example_full ''one'', example_full ''two'']"]
      by (simp add: b2 nc)
    ultimately show ?thesis
      by (simp add: loop_Return)
  qed
  have exhausted: "\<exists>rs. serves example_env None rs
         \<and> ?all = [] @ walk_records example_env False rs"
    using C2_budget [OF n5, of example_env False 5 None "[]" ?all] five by simp
  have endless: "\<forall>c. \<exists>resp batch. fetch_stories endless_env ''en'' 10 [''Bachelor''] c = Inr resp
            \<and> nextCursor resp \<noteq> None
            \<and> process_batch endless_env False 5 (items resp) = Inr batch \<and> batch \<noteq> []"
    by (simp add: fetch_stories_def endless_env_def raise_for_status_def process_batch_sequential
        enriched_def process_story_example_page page_example_envs [simplified endless_env_def])
  have c: "\<exists>out. fetch_full_stories endless_env 2 False 5 = Some (Inr out) \<and> int (length out) = 2"
    using C2_budget [OF n2, of endless_env False 5] endless by blast
  from three w have "fetch_full_stories example_env 3 False 5 = Some (Inr ?all)"
    by (simp add: fetch_full_stories_def)
  moreover from two have "fetch_full_stories example_env 2 False 5
      = Some (Inr [example_full ''one'', example_full ''two''])"
    by (simp add: fetch_full_stories_def)
  ultimately show ?thesis
    using exhausted c by blast
qed

theorem C9_metadata_from_summary_witness:
  "process_story example_env (example_item ''one'') = Inr (example_full ''one'')
   \<and> story_item.truncate (example_full ''one'') = example_item ''one''
   \<and> author (example_full ''one'') = example_author"
proof -
  have p: "process_story example_env (example_item ''one'') = Inr (example_full ''one'')"
    by (simp add: process_story_example_page page_example_envs)
  from C9_metadata_from_summary [OF p] p show ?thesis
    by (simp add: example_item_def)
qed

lemma loop_last_page:
  assumes "fetch_stories ev ''en'' 10 [''Bachelor''] cur = Inr resp"
    and "nextCursor resp = None"
    and "process_batch ev parallel max_workers (items resp) = Inr batch"
  shows "pagination_loop ev count' parallel max_workers cur all_stories =
     Some (Inr (if count' \<noteq> - 1 \<and> count' \<le> int (length (all_stories @ batch))
                then slice_to (all_stories @ batch) count'
                else all_stories @ batch))"
proof -
  have "loop_body ev count' parallel max_workers cur all_stories =
     Return (if count' \<noteq> - 1 \<and> count' \<le> int (length (all_stories @ batch))
             then slice_to (all_stories @ batch) count'
             else all_stories @ batch)"
    using assms(2) by (simp add: loop_body_ok [OF assms(1) assms(3)])
  then show ?thesis
    by (rule loop_Return)
qed

lemma serves_returns:
  "serves ev cur rs \<Longrightarrow>
   \<exists>r. pagination_loop ev count' parallel max_workers cur all_stories = Some r
     \<and> ((parallel \<longrightarrow> 0 < max_workers) \<longrightarrow> \<not> isl r)"
proof (induction rs arbitrary: cur all_stories)
  case Nil
  then show ?case by simp
next
  case (Cons resp rs)
  then have r: "fetch_stories ev ''en'' 10 [''Bachelor''] cur = Inr resp"
    by simp
  show ?case
  proof (cases "process_batch ev parallel max_workers (items resp)")
    case (Inl e)
    then have "\<not> (parallel \<longrightarrow> 0 < max_workers)"
      using process_batch_total [of parallel max_workers ev "items resp"] by auto
    moreover have "pagination_loop ev count' parallel max_workers cur all_stories = Some (Inl e)"
      using loop_body_batch_fails [OF r Inl] by (rule loop_Raise)
    ultimately show ?thesis by simp
  next
    case (Inr batch)
    show ?thesis
    proof (cases "nextCursor resp")
      case None
      show ?thesis
        using loop_last_page [OF r None Inr, of count' all_stories] by simp
    next
      case (Some c)
      show ?thesis
      proof (cases "count' \<noteq> - 1 \<and> count' \<le> int (length (all_stories @ batch))")
        case True
        then have "loop_body ev count' parallel max_workers cur all_stories
            = Return (slice_to (all_stories @ batch) count')"
          by (simp add: loop_body_ok [OF r Inr])
        from loop_Return [OF this] show ?thesis by simp
      next
        case False
        then have "loop_body ev count' parallel max_workers cur all_stories
            = Next c (all_stories @ batch)"
          using Some by (simp add: loop_body_ok [OF r Inr])
        then have "pagination_loop ev count' parallel max_workers cur all_stories
            = pagination_loop ev count' parallel max_workers (Some c) (all_stories @ batch)"
          by (rule loop_Next)
        moreover have "serves ev (Some c) rs"
          using Cons.prems Some by simp
        ultimately show ?thesis
          using Cons.IH [of "Some c" "all_stories @ batch"] by simp
      qed
    qed
  qed
qed

lemma serves_unbounded:
  "serves ev cur rs \<Longrightarrow>
   pagination_loop ev (- 1) False max_workers cur all_stories =
     Some (Inr (all_stories @ concat (map (\<lambda>r. List.map_filter (enriched ev) (items r)) rs)))"
proof (induction rs arbitrary: cur all_stories)
  case Nil
  then show ?case by simp
next
  case (Cons resp rs)
  then have r: "fetch_stories ev ''en'' 10 [''Bachelor''] cur = Inr resp"
    by simp
  note b = process_batch_sequential [of ev max_workers "items resp"]
  show ?case
  proof (cases "nextCursor resp")
    case None
    with Cons.prems have "rs = []" by simp
    with loop_last_page [OF r None b, of "- 1" all_stories] show ?thesis by simp
  next
    case (Some c)
    then have "loop_body ev (- 1) False max_workers cur all_stories
        = Next c (all_stories @ List.map_filter (enriched ev) (items resp))"
      by (simp add: loop_body_ok [OF r b])
    then have "pagination_loop ev (- 1) False max_workers cur all_stories
        = pagination_loop ev (- 1) False max_workers (Some c)
            (all_stories @ List.map_filter (enriched ev) (items resp))"
      by (rule loop_Next)
    moreover have "serves ev (Some c) rs"
      using Cons.prems Some by simp
    ultimately show ?thesis
      using Cons.IH [of "Some c" "all_stories @ List.map_filter (enriched ev) (items resp)"]
      by simp
  qed
qed

text \<open>
  Claim C7. When a listing response carries no next cursor, the loop returns on
  that turn: the accumulated records, cut to the budget if a budget is given and
  reached. Hence for every finite sequence of listing responses the loop returns,
  with records whenever the pool width is valid, and without a budget in sequential
  mode the result is every batch in listing order.
\<close>

theorem C7_pagination_terminates:
  "(fetch_stories ev ''en'' 10 [''Bachelor''] cur = Inr resp \<and> nextCursor resp = None
      \<and> process_batch ev parallel max_workers (items resp) = Inr batch \<longrightarrow>
      pagination_loop ev count' parallel max_workers cur all_stories =
        Some (Inr (if count' \<noteq> - 1 \<and> count' \<le> int (length (all_stories @ batch))
                   then slice_to (all_stories @ batch) count'
                   else all_stories @ batch)))
   \<and> (serves ev cur rs \<longrightarrow>
        (\<exists>r. pagination_loop ev count' parallel max_workers cur all_stories = Some r))
   \<and> (serves ev cur rs \<and> (parallel \<longrightarrow> 0 < max_workers) \<longrightarrow>
        (\<exists>out. pagination_loop ev count' parallel max_workers cur all_stories = Some (Inr out)))
   \<and> (serves ev cur rs \<longrightarrow>
        pagination_loop ev (- 1) False max_workers cur all_stories =
          Some (Inr (all_stories
                     @ concat (map (\<lambda>r. List.map_filter (enriched ev) (items r)) rs))))"
proof (intro conjI impI)
  assume "fetch_stories ev ''en'' 10 [''Bachelor''] cur = Inr resp \<and> nextCursor resp = None
      \<and> process_batch ev parallel max_workers (items resp) = Inr batch"
  then show "pagination_loop ev count' parallel max_workers cur all_stories =
        Some (Inr (if count' \<noteq> - 1 \<and> count' \<le> int (length (all_stories @ batch))
                   then slice_to (all_stories @ batch) count'
                   else all_stories @ batch))"
    using loop_last_page by blast
next
  assume "serves ev cur rs"
  from serves_returns [OF this]
  show "\<exists>r. pagination_loop ev count' parallel max_workers cur all_stories = Some r"
    by blast
next
  assume h: "serves ev cur rs \<and> (parallel \<longrightarrow> 0 < max_workers)"
  then obtain r where "pagination_loop ev count' parallel max_workers cur all_stories = Some r"
    and "\<not> isl r"
    using serves_returns [of ev cur rs count' parallel max_workers all_stories] by blast
  then show "\<exists>out. pagination_loop ev count' parallel max_workers cur all_stories = Some (Inr out)"
    by (cases r) simp_all
next
  assume "serves ev cur rs"
  then show "pagination_loop ev (- 1) False max_workers cur all_stories =
          Some (Inr (all_stories
                     @ concat (map (\<lambda>r. List.map_filter (enriched ev) (items r)) rs)))"
    by (rule serves_unbounded)
qed

theorem C7_pagination_terminates_witness:
  "serves example_env None [example_page_one, example_page_two]
   \<and> fetch_full_stories example_env (- 1) False 5 =
       Some (Inr [example_full ''one'', example_full ''two'', example_full ''three''])"
proof -
  have s: "serves example_env None [example_page_one, example_page_two]"
    by (simp add: fetch_stories_example example_page_one_def example_page_two_def)
  have "concat (map (\<lambda>r. List.map_filter (enriched example_env) (items r))
                  [example_page_one, example_page_two])
          = [example_full ''one'', example_full ''two'', example_full ''three'']"
    by (simp add: enriched_def example_page_one_def example_page_two_def
        process_story_example_page process_story_example_bad page_example_envs)
  with C7_pagination_terminates [of example_env None _ False 5 _ "- 1" "[]"
      "[example_page_one, example_page_two]"] s
  show ?thesis
    by (simp add: fetch_full_stories_def)
qed

end
